theory Spec2Isabelle
  imports Main "HOL-Library.Word" "HOL-Library.Char_ord" "HOL-Library.List_Lexorder"
begin

section \<open>The MARC-21 record model of ub\_tools\<close>

text \<open>
  A shallow embedding of \<^verbatim>\<open>cpp/lib/src/MarcRecord.cc\<close>, of the directory entry of
  \<^verbatim>\<open>cpp/lib/DirectoryEntry.h\<close>, of \<^verbatim>\<open>MergeControlFields\<close> in
  \<^verbatim>\<open>cpp/merge_print_and_online.cc\<close> and of the patch step of
  \<^verbatim>\<open>cpp/fix_article_biblio_levels.cc\<close>.

  Conventions. A \<^verbatim>\<open>std::string\<close> is a \<^typ>\<open>string\<close> (a list of bytes) and is compared
  byte-wise and lexicographically, which is the order of \<^theory_text>\<open>Char_ord\<close> and
  \<^theory_text>\<open>List_Lexorder\<close>. A \<^verbatim>\<open>std::vector\<close> is a list, an iterator is the position it
  points at, and \<^verbatim>\<open>size_t\<close> positions are natural numbers (below \<open>2 ^ 64\<close>). The two \<^verbatim>\<open>unsigned\<close>
  members of a directory entry are 32-bit words, so that the conversion from
  \<^verbatim>\<open>size_t\<close> truncates and \<^verbatim>\<open>getFieldLength() - 1\<close> wraps at zero. Exceptions, the
  fatal \<^verbatim>\<open>Error()\<close> and accesses the C++ standard leaves undefined are values of the
  type \<open>error\<close>; a function that can end in one of them returns \<open>error + 'a\<close>.
\<close>

subsection \<open>Data\<close>

datatype error =
    OutOfRange            \<comment> \<open>\<^verbatim>\<open>std::out_of_range\<close>, thrown by \<^verbatim>\<open>std::string\<close>\<close>
  | LengthError           \<comment> \<open>\<^verbatim>\<open>std::length_error\<close>, thrown by \<^verbatim>\<open>std::vector::reserve\<close>\<close>
  | FatalError            \<comment> \<open>\<^verbatim>\<open>Error(msg)\<close>: the tool prints the message and exits\<close>
  | UndefinedBehaviour    \<comment> \<open>an access outside a vector, a string or an iterator range\<close>

type_synonym MarcTag = string

record DirectoryEntry =
  tag :: MarcTag
  field_length :: "32 word"
  field_offset :: "32 word"

record MarcRecord =
  leader :: string
  raw_data :: string
  directory_entries :: "DirectoryEntry list"

text \<open>
  Modelled from the spec: \<^verbatim>\<open>Subfields\<close>, whose header and implementation are not under
  \<^verbatim>\<open>src/\<close>. The spec describes it as the two leading indicator characters of a field
  and the ordered sequence of (code, value) pairs; the default-constructed object has
  neither.
\<close>

record Subfields =
  indicators :: string
  subfields :: "(char \<times> string) list"

definition Subfields_default :: Subfields where
  "Subfields_default = \<lparr>indicators = [], subfields = []\<rparr>"

text \<open>
  Modelled from the spec: the parsing constructor \<^verbatim>\<open>Subfields(field_data)\<close>. The bytes are
  \<^verbatim>\<open>indicator1 indicator2 (0x1F code value)*\<close>: the text after the indicators is cut at
  every delimiter \<^verbatim>\<open>0x1F\<close>, and each piece that follows a delimiter gives its first
  byte as the code and the rest as the value; a piece with no byte gives no subfield.
\<close>

fun split_at :: "char \<Rightarrow> string \<Rightarrow> string list" where
  "split_at d [] = [[]]"
| "split_at d (c # cs) =
     (if c = d then [] # split_at d cs
      else (case split_at d cs of
              [] \<Rightarrow> [[c]]
            | p # ps \<Rightarrow> (c # p) # ps))"

definition Subfields_parse :: "string \<Rightarrow> Subfields" where
  "Subfields_parse field_data =
     \<lparr>indicators = take 2 field_data,
      subfields = map (\<lambda>p. (hd p, tl p))
                      (filter (\<lambda>p. p \<noteq> []) (tl (split_at (CHR 0x1F) (drop 2 field_data))))\<rparr>"

text \<open>
  Modelled from the spec: \<^verbatim>\<open>getFirstSubfieldValue(code)\<close>, the value of the first subfield
  with the given code, or the empty string when there is none.
\<close>

fun getFirstSubfieldValue :: "(char \<times> string) list \<Rightarrow> char \<Rightarrow> string" where
  "getFirstSubfieldValue [] code = []"
| "getFirstSubfieldValue ((c, v) # rest) code =
     (if c = code then v else getFirstSubfieldValue rest code)"

text \<open>
  Modelled from the spec: \<^verbatim>\<open>MarcRecord::FIELD_NOT_FOUND\<close>, the sentinel of
  \<^verbatim>\<open>getFieldIndex\<close>. Its initialiser is in \<^verbatim>\<open>MarcRecord.h\<close>, which is not under
  \<^verbatim>\<open>src/\<close>; it is taken to be the largest \<^verbatim>\<open>size_t\<close>, the value the older record
  class spells \<^verbatim>\<open>-1\<close>.
\<close>

definition FIELD_NOT_FOUND :: nat where
  "FIELD_NOT_FOUND = 2 ^ 64 - 1"


text \<open>
  The constructor \<^verbatim>\<open>std::string(str, pos, n)\<close>: it throws when \<^verbatim>\<open>pos\<close> lies behind the
  end of \<^verbatim>\<open>str\<close> and otherwise copies at most \<^verbatim>\<open>n\<close> bytes from \<^verbatim>\<open>pos\<close> on.
\<close>

definition string_from :: "string \<Rightarrow> nat \<Rightarrow> nat \<Rightarrow> error + string" where
  "string_from str pos n =
     (if length str < pos then Inl OutOfRange else Inr (take n (drop pos str)))"

subsection \<open>Accessors\<close>

text \<open>
  The guard \<^verbatim>\<open>directory_entries_.cbegin() + index >= directory_entries_.cend()\<close> of
  the three accessors. The iterator's \<^verbatim>\<open>operator+\<close> takes the signed
  \<^verbatim>\<open>difference_type\<close>, so the \<^verbatim>\<open>size_t\<close> index is read as a 64-bit two's
  complement number before it is added: an index from \<open>2 ^ 63\<close> on moves the iterator
  backwards, in front of \<^verbatim>\<open>cend()\<close>. The comparison is that of the positions.
\<close>

definition reaches_end :: "'a list \<Rightarrow> nat \<Rightarrow> bool" where
  "reaches_end es index = (int (length es) \<le> sint (word_of_nat index :: 64 word))"

text \<open>
  Where the guard lets the call through, \<^verbatim>\<open>directory_entries_[index]\<close> is read
  without a further check; outside the vector that is undefined.
\<close>

definition getFieldData :: "MarcRecord \<Rightarrow> nat \<Rightarrow> error + string" where
  "getFieldData r index =
     (if reaches_end (directory_entries r) index then Inr []
      else if length (directory_entries r) \<le> index then Inl UndefinedBehaviour
      else let entry = directory_entries r ! index
           in string_from (raw_data r) (unat (field_offset entry))
                (unat (field_length entry - 1)))"

definition getSubfields :: "MarcRecord \<Rightarrow> nat \<Rightarrow> error + Subfields" where
  "getSubfields r index =
     (if reaches_end (directory_entries r) index then Inr Subfields_default
      else (case getFieldData r index of
              Inl e \<Rightarrow> Inl e
            | Inr data \<Rightarrow> Inr (Subfields_parse data)))"

definition getTag :: "MarcRecord \<Rightarrow> nat \<Rightarrow> error + MarcTag" where
  "getTag r index =
     (if reaches_end (directory_entries r) index then Inr []
      else if length (directory_entries r) \<le> index then Inl UndefinedBehaviour
      else Inr (tag (directory_entries r ! index)))"

function getFieldIndex_from :: "DirectoryEntry list \<Rightarrow> MarcTag \<Rightarrow> nat \<Rightarrow> nat" where
  "getFieldIndex_from es field_tag i =
     (if i < length es
      then (if tag (es ! i) = field_tag then i
            else getFieldIndex_from es field_tag (i + 1))
      else FIELD_NOT_FOUND)"
  by pat_completeness auto
termination
  by (relation "measure (\<lambda>(es, field_tag, i). length es - i)") auto

declare getFieldIndex_from.simps [simp del]

definition getFieldIndex :: "MarcRecord \<Rightarrow> MarcTag \<Rightarrow> nat" where
  "getFieldIndex r field_tag = getFieldIndex_from (directory_entries r) field_tag 0"

function getFieldIndices_from ::
  "DirectoryEntry list \<Rightarrow> MarcTag \<Rightarrow> nat \<Rightarrow> nat list \<Rightarrow> nat list" where
  "getFieldIndices_from es field_tag field_index field_indices =
     (if field_index < length es \<and> tag (es ! field_index) = field_tag
      then getFieldIndices_from es field_tag (field_index + 1) (field_indices @ [field_index])
      else field_indices)"
  by pat_completeness auto
termination
  by (relation "measure (\<lambda>(es, field_tag, i, acc). length es - i)") auto

declare getFieldIndices_from.simps [simp del]

text \<open>The result vector; the source returns its size and fills the out-parameter.\<close>

definition getFieldIndices :: "MarcRecord \<Rightarrow> MarcTag \<Rightarrow> nat list" where
  "getFieldIndices r field_tag =
     getFieldIndices_from (directory_entries r) field_tag (getFieldIndex r field_tag) []"

subsection \<open>Mutation\<close>

text \<open>
  \<^verbatim>\<open>updateField\<close> takes a reference to \<^verbatim>\<open>directory_entries_[field_index]\<close> without a
  check, which is undefined for an index outside the vector. It returns \<^verbatim>\<open>true\<close>.
\<close>

definition updateField :: "MarcRecord \<Rightarrow> nat \<Rightarrow> string \<Rightarrow> error + (bool \<times> MarcRecord)" where
  "updateField r field_index new_field_value =
     (if length (directory_entries r) \<le> field_index then Inl UndefinedBehaviour
      else let offset = length (raw_data r);
               len = length new_field_value + 1;
               entry = (directory_entries r ! field_index)
                         \<lparr>field_length := of_nat len, field_offset := of_nat offset\<rparr>
           in Inr (True,
                   r\<lparr>directory_entries := (directory_entries r)[field_index := entry],
                     raw_data := raw_data r @ new_field_value @ [CHR 0x1E]\<rparr>))"

function insertion_location_from :: "DirectoryEntry list \<Rightarrow> MarcTag \<Rightarrow> nat \<Rightarrow> nat" where
  "insertion_location_from es new_field_tag i =
     (if i < length es \<and> tag (es ! i) \<le> new_field_tag
      then insertion_location_from es new_field_tag (i + 1)
      else i)"
  by pat_completeness auto
termination
  by (relation "measure (\<lambda>(es, new_field_tag, i). length es - i)") auto

declare insertion_location_from.simps [simp del]

text \<open>
  The scan for the insertion location starts at \<^verbatim>\<open>begin()\<close> and moves forward one entry
  at a time, so \<^verbatim>\<open>insertion_location != end()\<close> is \<open>i < length es\<close>. \<^verbatim>\<open>insertField\<close> is
  the pair of the returned index and the record after the call.
\<close>

definition insertField :: "MarcRecord \<Rightarrow> MarcTag \<Rightarrow> string \<Rightarrow> nat \<times> MarcRecord" where
  "insertField r new_field_tag new_field_value =
     (let insertion_location = insertion_location_from (directory_entries r) new_field_tag 0;
          offset = length (raw_data r);
          len = length new_field_value + 1;
          new_entry = \<lparr>tag = new_field_tag, field_length = of_nat len,
                       field_offset = of_nat offset\<rparr>
      in (insertion_location,
          r\<lparr>directory_entries := take insertion_location (directory_entries r) @ [new_entry]
                                   @ drop insertion_location (directory_entries r),
            raw_data := raw_data r @ new_field_value @ [CHR 0x1E]\<rparr>))"

text \<open>
  \<^verbatim>\<open>deleteFields\<close> copies the entries between the blocks into a new vector.
  \<^verbatim>\<open>new_entries.insert(end, begin + a, begin + b)\<close> is defined when
  \<open>a \<le> b \<le> size\<close>; any other pair of positions is not a range of the vector.
\<close>

definition copy_range :: "'a list \<Rightarrow> nat \<Rightarrow> nat \<Rightarrow> error + 'a list" where
  "copy_range es from_pos to_pos =
     (if from_pos \<le> to_pos \<and> to_pos \<le> length es
      then Inr (take (to_pos - from_pos) (drop from_pos es))
      else Inl UndefinedBehaviour)"

fun deleteFields_loop ::
  "DirectoryEntry list \<Rightarrow> nat \<Rightarrow> DirectoryEntry list \<Rightarrow> (nat \<times> nat) list
     \<Rightarrow> error + DirectoryEntry list" where
  "deleteFields_loop es copy_start new_entries [] =
     (case copy_range es copy_start (length es) of
        Inl e \<Rightarrow> Inl e
      | Inr copied \<Rightarrow> Inr (new_entries @ copied))"
| "deleteFields_loop es copy_start new_entries (block # blocks) =
     (case copy_range es copy_start (fst block) of
        Inl e \<Rightarrow> Inl e
      | Inr copied \<Rightarrow> deleteFields_loop es (snd block) (new_entries @ copied) blocks)"

definition deleteFields :: "MarcRecord \<Rightarrow> (nat \<times> nat) list \<Rightarrow> error + MarcRecord" where
  "deleteFields r blocks =
     (case deleteFields_loop (directory_entries r) 0 [] blocks of
        Inl e \<Rightarrow> Inl e
      | Inr new_entries \<Rightarrow> Inr (r\<lparr>directory_entries := new_entries\<rparr>))"

text \<open>
  The inner loop of \<^verbatim>\<open>filterTags\<close> moves \<^verbatim>\<open>entry\<close> to the end of the run of entries
  that carry the tag found in the drop set.
\<close>

function skip_run :: "DirectoryEntry list \<Rightarrow> MarcTag \<Rightarrow> nat \<Rightarrow> nat" where
  "skip_run es t entry =
     (if entry < length es \<and> tag (es ! entry) = t then skip_run es t (entry + 1) else entry)"
  by pat_completeness auto
termination
  by (relation "measure (\<lambda>(es, t, entry). length es - entry)") auto

declare skip_run.simps [simp del]

text \<open>
  The outer loop. After a run has been recorded the \<^verbatim>\<open>++entry\<close> of the
  \<^verbatim>\<open>for\<close> statement still runs, so the scan resumes one entry behind the end of the
  run. \<^verbatim>\<open>*tag_iter\<close> is the member of the drop set equal to the tag of the entry
  that opened the run.
\<close>

function filterTags_loop ::
  "DirectoryEntry list \<Rightarrow> MarcTag set \<Rightarrow> nat \<Rightarrow> (nat \<times> nat) list \<Rightarrow> (nat \<times> nat) list" where
  "filterTags_loop es drop_tags entry deleted_blocks =
     (if entry < length es
      then (if tag (es ! entry) \<notin> drop_tags
            then filterTags_loop es drop_tags (entry + 1) deleted_blocks
            else filterTags_loop es drop_tags (skip_run es (tag (es ! entry)) entry + 1)
                   (deleted_blocks @ [(entry, skip_run es (tag (es ! entry)) entry)]))
      else deleted_blocks)"
  by pat_completeness auto
termination
proof (relation "measure (\<lambda>(es, drop_tags, entry, deleted_blocks). length es - entry)")
  show "wf (measure (\<lambda>(es, drop_tags, entry, deleted_blocks). length es - entry))"
    by simp
next
  fix es :: "DirectoryEntry list" and drop_tags :: "MarcTag set" and entry :: nat
    and deleted_blocks :: "(nat \<times> nat) list"
  assume "entry < length es" "tag (es ! entry) \<notin> drop_tags"
  then show "((es, drop_tags, entry + 1, deleted_blocks), (es, drop_tags, entry, deleted_blocks))
               \<in> measure (\<lambda>(es, drop_tags, entry, deleted_blocks). length es - entry)"
    by simp
next
  fix es :: "DirectoryEntry list" and drop_tags :: "MarcTag set" and entry :: nat
    and deleted_blocks :: "(nat \<times> nat) list"
  assume lt: "entry < length es"
  have "i \<le> skip_run es t i" for t i
  proof (induction es t i rule: skip_run.induct)
    case (1 es t entry)
    show ?case
    proof (cases "entry < length es \<and> tag (es ! entry) = t")
      case True
      then have "skip_run es t entry = skip_run es t (entry + 1)"
        by (subst skip_run.simps) simp
      then show ?thesis using "1.IH" True by simp
    next
      case False
      then have "skip_run es t entry = entry"
        by (subst skip_run.simps) auto
      then show ?thesis by simp
    qed
  qed
  then have "entry \<le> skip_run es (tag (es ! entry)) entry" .
  then show "((es, drop_tags, skip_run es (tag (es ! entry)) entry + 1,
               deleted_blocks @ [(entry, skip_run es (tag (es ! entry)) entry)]),
              (es, drop_tags, entry, deleted_blocks))
               \<in> measure (\<lambda>(es, drop_tags, entry, deleted_blocks). length es - entry)"
    using lt by simp
qed

declare filterTags_loop.simps [simp del]

definition filterTags :: "MarcRecord \<Rightarrow> MarcTag set \<Rightarrow> error + MarcRecord" where
  "filterTags r drop_tags =
     deleteFields r (filterTags_loop (directory_entries r) drop_tags 0 [])"

text \<open>
  \<^verbatim>\<open>combine\<close> takes the other record by reference; the model is of two distinct
  objects. \<^verbatim>\<open>reserve(size() - 1)\<close> is asked for the largest \<^verbatim>\<open>size_t\<close> when the
  other record has no entry, which \<^verbatim>\<open>std::vector\<close> refuses with
  \<^verbatim>\<open>std::length_error\<close>. The new offset is computed in \<^verbatim>\<open>size_t\<close> and stored in
  the \<^verbatim>\<open>unsigned\<close> member, that is, modulo \<open>2 ^ 32\<close>.
\<close>

fun combine_entries ::
  "nat \<Rightarrow> DirectoryEntry list \<Rightarrow> DirectoryEntry list \<Rightarrow> DirectoryEntry list" where
  "combine_entries offset entries [] = entries"
| "combine_entries offset entries (e # rest) =
     combine_entries offset
       (entries @ [e\<lparr>field_offset := field_offset e + of_nat offset\<rparr>]) rest"

definition combine :: "MarcRecord \<Rightarrow> MarcRecord \<Rightarrow> error + MarcRecord" where
  "combine r other =
     (let offset = length (raw_data r)
      in if directory_entries other = [] then Inl LengthError
         else Inr (r\<lparr>raw_data := raw_data r @ raw_data other,
                     directory_entries :=
                       combine_entries offset (directory_entries r)
                         (tl (directory_entries other))\<rparr>))"

subsection \<open>Local data blocks\<close>




text \<open>
  \<^verbatim>\<open>std::string::operator[]\<close>: the byte at \<^verbatim>\<open>pos\<close>, the NUL byte for
  \<^verbatim>\<open>pos == size()\<close>, and undefined behind that.
\<close>

definition char_at :: "string \<Rightarrow> nat \<Rightarrow> error + char" where
  "char_at s pos =
     (if pos < length s then Inr (s ! pos)
      else if pos = length s then Inr (CHR 0x00)
      else Inl UndefinedBehaviour)"






subsection \<open>Merging control fields\<close>

record Field =
  field_tag :: MarcTag
  field_contents :: string

text \<open>\<^verbatim>\<open>std::max(a, b)\<close> is \<^verbatim>\<open>(a < b) ? b : a\<close>.\<close>

definition std_max :: "string \<Rightarrow> string \<Rightarrow> string" where
  "std_max a b = (if a < b then b else a)"

definition MergeControlFields :: "MarcTag \<Rightarrow> string \<Rightarrow> string \<Rightarrow> Field" where
  "MergeControlFields t field_contents1 field_contents2 =
     (let merged_contents =
            (if t = ''005'' then std_max field_contents1 field_contents2 else field_contents1)
      in \<lparr>field_tag = t, field_contents = merged_contents\<rparr>)"

subsection \<open>The bibliographic-level patch of fix\_article\_biblio\_levels\<close>

text \<open>
  Modelled from the spec: \<^verbatim>\<open>MarcUtil::Record\<close> as this tool uses it (its class is not
  under \<^verbatim>\<open>src/\<close>): a leader and the ordered fields, each with its tag and its
  contents. \<^verbatim>\<open>getFieldIndex\<close> is the first-match scan and answers \<open>-1\<close> when no field
  has the tag; \<^verbatim>\<open>getFields()[i]\<close> is the contents of field \<open>i\<close>.
\<close>

record MarcUtil_Record =
  record_leader :: string
  record_fields :: "(MarcTag \<times> string) list"

fun MarcUtil_getFieldIndex_from :: "(MarcTag \<times> string) list \<Rightarrow> MarcTag \<Rightarrow> int \<Rightarrow> int" where
  "MarcUtil_getFieldIndex_from [] t i = - 1"
| "MarcUtil_getFieldIndex_from (f # fs) t i =
     (if fst f = t then i else MarcUtil_getFieldIndex_from fs t (i + 1))"

definition MarcUtil_getFieldIndex :: "MarcUtil_Record \<Rightarrow> MarcTag \<Rightarrow> int" where
  "MarcUtil_getFieldIndex record t = MarcUtil_getFieldIndex_from (record_fields record) t 0"

text \<open>
  Modelled from the spec: \<^verbatim>\<open>RegexMatcher\<close>, an external collaborator that is not
  under \<^verbatim>\<open>src/\<close>. The functions below are the search for the one pattern
  \<^verbatim>\<open>\(.+\)(\d{8}[\dX])\<close> that \<^verbatim>\<open>HasSerialParent\<close> compiles: the match may start at
  any position, the leftmost start wins, \<^verbatim>\<open>.+\<close> takes one or more bytes other than
  the line feed and as many as it can, \<^verbatim>\<open>\d\<close> is an ASCII digit. The result is the
  text of group 1, or \<open>None\<close> when the pattern matches nowhere.
\<close>

definition is_digit :: "char \<Rightarrow> bool" where
  "is_digit c = (CHR ''0'' \<le> c \<and> c \<le> CHR ''9'')"

definition control_number_at :: "string \<Rightarrow> bool" where
  "control_number_at s =
     (9 \<le> length s \<and> list_all is_digit (take 8 s) \<and> (is_digit (s ! 8) \<or> s ! 8 = CHR ''X''))"

text \<open>
  Behind the first byte of \<^verbatim>\<open>.+\<close>: every byte is either taken by \<^verbatim>\<open>.+\<close> too,
  which is tried first, or is the closing parenthesis in front of group 1.
\<close>

fun match_rest :: "string \<Rightarrow> string option" where
  "match_rest [] = None"
| "match_rest (c # cs) =
     (case (if c = CHR 0x0A then None else match_rest cs) of
        Some group1 \<Rightarrow> Some group1
      | None \<Rightarrow> if c = CHR '')'' \<and> control_number_at cs then Some (take 9 cs) else None)"

fun match_here :: "string \<Rightarrow> string option" where
  "match_here (c # d # cs) = (if c = CHR ''('' \<and> d \<noteq> CHR 0x0A then match_rest cs else None)"
| "match_here cs = None"

fun regex_search :: "string \<Rightarrow> string option" where
  "regex_search [] = None"
| "regex_search (c # cs) =
     (case match_here (c # cs) of
        Some group1 \<Rightarrow> Some group1
      | None \<Rightarrow> regex_search cs)"

definition HasSerialParent :: "string \<Rightarrow> MarcUtil_Record \<Rightarrow> string set \<Rightarrow> error + bool" where
  "HasSerialParent subfield record serial_control_numbers =
     (let t = take 3 subfield
      in case char_at subfield 3 of
           Inl e \<Rightarrow> Inl e
         | Inr subfield_code \<Rightarrow>
             let field_index = MarcUtil_getFieldIndex record t
             in if field_index = - 1 then Inr False
                else let subfield_contents =
                           getFirstSubfieldValue
                             (subfields (Subfields_parse
                                (snd (record_fields record ! nat field_index))))
                             subfield_code
                     in if subfield_contents = [] then Inr False
                        else (case regex_search subfield_contents of
                                None \<Rightarrow> Inr False
                              | Some parent_id \<Rightarrow> Inr (parent_id \<in> serial_control_numbers)))"

fun any_serial_parent :: "string list \<Rightarrow> MarcUtil_Record \<Rightarrow> string set \<Rightarrow> error + bool" where
  "any_serial_parent [] record serial_control_numbers = Inr False"
| "any_serial_parent (subfield # rest) record serial_control_numbers =
     (case HasSerialParent subfield record serial_control_numbers of
        Inl e \<Rightarrow> Inl e
      | Inr found \<Rightarrow>
          if found then Inr True else any_serial_parent rest record serial_control_numbers)"

text \<open>
  Modelled from the spec: \<^verbatim>\<open>StringUtil::Split\<close>, not under \<^verbatim>\<open>src/\<close>, cuts the list
  of subfield references at every colon.
\<close>

definition HasAtLeastOneSerialParent ::
  "string \<Rightarrow> MarcUtil_Record \<Rightarrow> string set \<Rightarrow> error + bool" where
  "HasAtLeastOneSerialParent subfield_list record serial_control_numbers =
     any_serial_parent (split_at (CHR '':'') subfield_list) record serial_control_numbers"

text \<open>
  \<^verbatim>\<open>PatchUpArticle\<close> returns \<^verbatim>\<open>true\<close> on every path; the model gives the record it
  writes to the output and the counter of patched records. Reading byte 7 of a leader
  that is too short is outside the leader.
\<close>

definition PatchUpArticle ::
  "MarcUtil_Record \<Rightarrow> string set \<Rightarrow> 32 word \<Rightarrow> error + (MarcUtil_Record \<times> 32 word)" where
  "PatchUpArticle record serial_control_numbers patch_count =
     (if length (record_leader record) \<le> 7 then Inl UndefinedBehaviour
      else if record_leader record ! 7 \<noteq> CHR ''a'' then Inr (record, patch_count)
      else (case HasAtLeastOneSerialParent ''800w:810w:830w:773w'' record serial_control_numbers of
              Inl e \<Rightarrow> Inl e
            | Inr found \<Rightarrow>
                if \<not> found then Inr (record, patch_count)
                else Inr (record\<lparr>record_leader := (record_leader record)[7 := CHR ''b'']\<rparr>,
                          patch_count + 1)))"

subsection \<open>Predicates and examples used in the statements\<close>

text \<open>
  The invariant of the data model for one directory entry: the field, terminator
  included, lies inside the raw data.
\<close>

definition within_raw_data :: "MarcRecord \<Rightarrow> nat \<Rightarrow> bool" where
  "within_raw_data r j =
     (j < length (directory_entries r) \<longrightarrow>
        1 \<le> unat (field_length (directory_entries r ! j)) \<and>
        unat (field_offset (directory_entries r ! j)) + unat (field_length (directory_entries r ! j))
          \<le> length (raw_data r))"

text \<open>
  The entries with tag \<open>t\<close> form one run: behind the first run of them no entry has
  the tag. Every tag-sorted directory is of this kind.
\<close>

definition same_tag_contiguous :: "DirectoryEntry list \<Rightarrow> MarcTag \<Rightarrow> bool" where
  "same_tag_contiguous es t =
     (\<forall>e \<in> set (dropWhile (\<lambda>e. tag e = t) (dropWhile (\<lambda>e. tag e \<noteq> t) es)). tag e \<noteq> t)"

definition example_record :: MarcRecord where
  "example_record =
     \<lparr>leader = ''00000naa a2200000 a 4500'',
      raw_data = ''123'' @ [CHR 0x1E] @ ''de'' @ [CHR 0x1E],
      directory_entries = [\<lparr>tag = ''001'', field_length = 4, field_offset = 0\<rparr>,
                           \<lparr>tag = ''245'', field_length = 3, field_offset = 4\<rparr>]\<rparr>"

definition example_other :: MarcRecord where
  "example_other =
     \<lparr>leader = ''00000nas a2200000 a 4500'',
      raw_data = ''456'' @ [CHR 0x1E] @ ''  '' @ [CHR 0x1F] @ ''aX'' @ [CHR 0x1E],
      directory_entries = [\<lparr>tag = ''001'', field_length = 4, field_offset = 0\<rparr>,
                           \<lparr>tag = ''700'', field_length = 6, field_offset = 4\<rparr>]\<rparr>"






text \<open>
  Two article records for the patch step. Both have \<open>a\<close> in leader byte 7 and one
  field \<open>773\<close> whose subfield \<open>w\<close> refers to the superior work: the first by the
  number \<open>123\<close>, the second by a control number of nine characters.
\<close>

definition example_article :: MarcUtil_Record where
  "example_article =
     \<lparr>record_leader = ''00000naa a2200000 a 4500'',
      record_fields = [(''001'', ''456''),
                       (''773'', ''  '' @ [CHR 0x1F] @ ''w(DE-576)123'')]\<rparr>"

definition example_article_ppn :: MarcUtil_Record where
  "example_article_ppn =
     \<lparr>record_leader = ''00000naa a2200000 a 4500'',
      record_fields = [(''001'', ''456''),
                       (''773'', ''  '' @ [CHR 0x1F] @ ''w(DE-576)12345678X'')]\<rparr>"

section \<open>Properties\<close>

subsection \<open>The guard of the accessors\<close>

lemma sint_le_nat: "sint (word_of_nat n :: 64 word) \<le> int n"
proof -
  have nonneg: "- (2 ^ 63) \<le> uint (word_of_nat n :: 64 word)"
    by (rule order_trans [of _ 0]) simp_all
  have "sint (word_of_nat n :: 64 word) \<le> uint (word_of_nat n :: 64 word)"
    using nonneg by (simp add: sint_uint signed_take_bit_int_less_eq_self_iff)
  also have "\<dots> = int (n mod 2 ^ 64)"
    by (simp add: uint_nat unat_of_nat)
  also have "\<dots> \<le> int n" by simp
  finally show ?thesis .
qed

lemma sint_small: "n < 2 ^ 63 \<Longrightarrow> sint (word_of_nat n :: 64 word) = int n"
proof -
  assume small: "n < 2 ^ 63"
  then have u: "uint (word_of_nat n :: 64 word) = int n"
    by (simp add: uint_nat unat_of_nat)
  have "signed_take_bit 63 (int n) = int n"
    using small by (intro signed_take_bit_int_eq_self) simp_all
  then show ?thesis by (simp add: sint_uint u)
qed

lemma reaches_end_inside: "index < length es \<Longrightarrow> \<not> reaches_end es index"
  using sint_le_nat [of index] by (simp add: reaches_end_def)

lemma reaches_end_small: "index < 2 ^ 63 \<Longrightarrow> reaches_end es index = (length es \<le> index)"
  by (simp add: reaches_end_def sint_small)

lemma reaches_end_sentinel: "\<not> reaches_end es FIELD_NOT_FOUND"
  by (simp add: reaches_end_def FIELD_NOT_FOUND_def)

lemma getFieldData_at:
  "index < length (directory_entries r) \<Longrightarrow>
   getFieldData r index
     = string_from (raw_data r) (unat (field_offset (directory_entries r ! index)))
         (unat (field_length (directory_entries r ! index) - 1))"
  by (simp add: getFieldData_def reaches_end_inside Let_def)

subsection \<open>Scans over the directory\<close>

lemma getFieldIndex_from_absent:
  "\<forall>j. i \<le> j \<and> j < length es \<longrightarrow> tag (es ! j) \<noteq> t \<Longrightarrow> getFieldIndex_from es t i = FIELD_NOT_FOUND"
proof (induction es t i rule: getFieldIndex_from.induct)
  case (1 es t i)
  show ?case
  proof (cases "i < length es")
    case True
    then have ne: "tag (es ! i) \<noteq> t" using "1.prems" by simp
    have "getFieldIndex_from es t (i + 1) = FIELD_NOT_FOUND"
      using "1.IH" True ne "1.prems" by simp
    then show ?thesis using True ne by (subst getFieldIndex_from.simps) simp
  next
    case False
    then show ?thesis by (subst getFieldIndex_from.simps) simp
  qed
qed

lemma getFieldIndex_from_first:
  "i \<le> k \<Longrightarrow> k < length es \<Longrightarrow> tag (es ! k) = t \<Longrightarrow>
   \<forall>j. i \<le> j \<and> j < k \<longrightarrow> tag (es ! j) \<noteq> t \<Longrightarrow> getFieldIndex_from es t i = k"
proof (induction es t i rule: getFieldIndex_from.induct)
  case (1 es t i)
  show ?case
  proof (cases "i = k")
    case True
    then show ?thesis using "1.prems" by (subst getFieldIndex_from.simps) simp
  next
    case False
    then have lt: "i < k" using "1.prems" by simp
    then have ne: "tag (es ! i) \<noteq> t" using "1.prems" by simp
    have "getFieldIndex_from es t (i + 1) = k"
      using "1.IH" lt ne "1.prems" by simp
    then show ?thesis using lt ne "1.prems" by (subst getFieldIndex_from.simps) simp
  qed
qed

lemma insertion_location_bounds:
  "i \<le> length es \<Longrightarrow> i \<le> insertion_location_from es t i \<and> insertion_location_from es t i \<le> length es"
proof (induction es t i rule: insertion_location_from.induct)
  case (1 es t i)
  show ?case
  proof (cases "i < length es \<and> tag (es ! i) \<le> t")
    case True
    then have "i + 1 \<le> insertion_location_from es t (i + 1) \<and> insertion_location_from es t (i + 1) \<le> length es"
      using "1.IH" by simp
    moreover have "insertion_location_from es t i = insertion_location_from es t (i + 1)"
      using True by (subst insertion_location_from.simps) simp
    ultimately show ?thesis by simp
  next
    case False
    then have "insertion_location_from es t i = i"
      by (subst insertion_location_from.simps) auto
    then show ?thesis using "1.prems" by simp
  qed
qed

lemma unat_of_nat_32: "n < 2 ^ 32 \<Longrightarrow> unat (of_nat n :: 32 word) = n"
  by (simp add: unat_of_nat)

lemma unat_of_nat_Suc_minus_1: "n < 2 ^ 32 \<Longrightarrow> unat ((of_nat (n + 1) :: 32 word) - 1) = n"
  by (simp add: unat_of_nat)

lemma string_from_appended:
  "string_from (raw @ v @ [c]) (length raw) (length v) = Inr v"
  by (simp add: string_from_def)

lemma string_from_within:
  "pos + n \<le> length raw \<Longrightarrow> string_from (raw @ ext) pos n = string_from raw pos n"
  by (simp add: string_from_def)

lemma unat_minus_1: "1 \<le> unat (w :: 32 word) \<Longrightarrow> unat (w - 1) = unat w - 1"
  by (metis unat_1 unat_sub word_le_nat_alt)

lemma getFieldIndices_from_run:
  "getFieldIndices_from es t i acc =
     acc @ [i ..< i + length (takeWhile (\<lambda>e. tag e = t) (drop i es))]"
proof (induction es t i acc rule: getFieldIndices_from.induct)
  case (1 es t i acc)
  show ?case
  proof (cases "i < length es \<and> tag (es ! i) = t")
    case True
    then have d: "drop i es = es ! i # drop (Suc i) es"
      by (simp add: Cons_nth_drop_Suc)
    have "getFieldIndices_from es t i acc = getFieldIndices_from es t (i + 1) (acc @ [i])"
      using True by (subst getFieldIndices_from.simps) simp
    also have "\<dots> = (acc @ [i]) @ [i + 1 ..< i + 1 + length (takeWhile (\<lambda>e. tag e = t) (drop (i + 1) es))]"
      using "1.IH" True by simp
    also have "\<dots> = acc @ [i ..< i + length (takeWhile (\<lambda>e. tag e = t) (drop i es))]"
    proof -
      have step: "[i ..< i + Suc m] = i # [i + 1 ..< i + 1 + m]" for m
        by (simp add: upt_conv_Cons)
      have "length (takeWhile (\<lambda>e. tag e = t) (drop i es))
            = Suc (length (takeWhile (\<lambda>e. tag e = t) (drop (i + 1) es)))"
        using True by (subst d) simp
      then show ?thesis by (simp only: step) simp
    qed
    finally show ?thesis .
  next
    case False
    then have "takeWhile (\<lambda>e. tag e = t) (drop i es) = []"
      by (cases "i < length es") (simp_all add: Cons_nth_drop_Suc [symmetric])
    moreover have "getFieldIndices_from es t i acc = acc"
      using False by (subst getFieldIndices_from.simps) auto
    ultimately show ?thesis by simp
  qed
qed

lemma upt_filter_interval:
  "b \<le> n \<Longrightarrow> filter (\<lambda>j. a \<le> j \<and> j < b) [0..<n] = [a..<b]"
proof (rule sorted_distinct_set_unique)
  show "sorted (filter (\<lambda>j. a \<le> j \<and> j < b) [0..<n])"
    by (rule sorted_wrt_filter) simp
  show "distinct (filter (\<lambda>j. a \<le> j \<and> j < b) [0..<n])" by simp
  show "sorted [a..<b]" by simp
  show "distinct [a..<b]" by simp
  show "b \<le> n \<Longrightarrow> set (filter (\<lambda>j. a \<le> j \<and> j < b) [0..<n]) = set [a..<b]" by auto
qed

subsection \<open>Accessors on an index outside the directory\<close>

text \<open>
  C9. The code does not do what the claim says at the sentinel. For an index that is
  no position of the directory and lies below \<open>2 ^ 63\<close>, \<^verbatim>\<open>getFieldData\<close> returns
  the empty string, \<^verbatim>\<open>getSubfields\<close> the empty \<^verbatim>\<open>Subfields\<close> object and
  \<^verbatim>\<open>getTag\<close> the empty tag. For \<^verbatim>\<open>FIELD_NOT_FOUND\<close>, the index that
  \<^verbatim>\<open>getFieldIndex\<close> returns for an absent tag, the guard of the three accessors is
  false, because the index is added as a negative difference, and each of them reads
  \<^verbatim>\<open>directory_entries_[index]\<close> outside the vector.
\<close>

theorem accessors_at_sentinel:
  "(length (directory_entries r) \<le> i \<and> i < 2 ^ 63 \<longrightarrow>
      getFieldData r i = Inr [] \<and> getSubfields r i = Inr Subfields_default \<and>
      getTag r i = Inr []) \<and>
   (length (directory_entries r) \<le> FIELD_NOT_FOUND \<longrightarrow>
      getFieldData r FIELD_NOT_FOUND = Inl UndefinedBehaviour \<and>
      getSubfields r FIELD_NOT_FOUND = Inl UndefinedBehaviour \<and>
      getTag r FIELD_NOT_FOUND = Inl UndefinedBehaviour)"
  by (simp add: getFieldData_def getSubfields_def getTag_def reaches_end_small
      reaches_end_sentinel)

theorem accessors_at_sentinel_witness:
  "getFieldIndex example_record ''999'' = FIELD_NOT_FOUND \<and>
   length (directory_entries example_record) \<le> FIELD_NOT_FOUND \<and>
   getFieldData example_record FIELD_NOT_FOUND = Inl UndefinedBehaviour \<and>
   getSubfields example_record FIELD_NOT_FOUND = Inl UndefinedBehaviour \<and>
   getTag example_record FIELD_NOT_FOUND = Inl UndefinedBehaviour \<and>
   length (directory_entries example_record) \<le> 2 \<and> (2 :: nat) < 2 ^ 63 \<and>
   getFieldData example_record 2 = Inr [] \<and>
   getSubfields example_record 2 = Inr Subfields_default \<and>
   getTag example_record 2 = Inr []"
proof -
  have absent: "getFieldIndex example_record ''999'' = FIELD_NOT_FOUND"
    by (simp add: getFieldIndex_def example_record_def getFieldIndex_from.simps)
  have outside: "length (directory_entries example_record) \<le> FIELD_NOT_FOUND"
    by (simp add: example_record_def FIELD_NOT_FOUND_def)
  have behind: "length (directory_entries example_record) \<le> 2"
    by (simp add: example_record_def)
  have small: "(2 :: nat) < 2 ^ 63"
    by simp
  note T = accessors_at_sentinel [of example_record 2]
  have sentinel: "getFieldData example_record FIELD_NOT_FOUND = Inl UndefinedBehaviour"
      "getSubfields example_record FIELD_NOT_FOUND = Inl UndefinedBehaviour"
      "getTag example_record FIELD_NOT_FOUND = Inl UndefinedBehaviour"
    using T outside by blast+
  have empty: "getFieldData example_record 2 = Inr []"
      "getSubfields example_record 2 = Inr Subfields_default"
      "getTag example_record 2 = Inr []"
    using T behind small by blast+
  show ?thesis
    by (intro conjI absent outside sentinel behind small empty)
qed

subsection \<open>updateField\<close>

text \<open>
  C3. For a record and a valid field index \<open>i\<close>, \<^verbatim>\<open>updateField(i, v)\<close> sets the offset
  of entry \<open>i\<close> to the length the raw data had before the call and its length to
  \<open>length v + 1\<close>, appends \<open>v\<close> and the terminator \<^verbatim>\<open>0x1E\<close> to the raw data, which
  so grows and keeps every byte it had, and leaves every other entry as it was. Then
  \<^verbatim>\<open>getFieldData(i)\<close> is \<open>v\<close>, and \<^verbatim>\<open>getFieldData(j)\<close> is unchanged for every other
  entry that satisfies the invariant of the data model. The sizes are those an
  \<^verbatim>\<open>unsigned\<close> member of a directory entry can hold.
\<close>

theorem updateField_appends:
  assumes valid: "i < length (directory_entries r)"
      and fits: "length (raw_data r) < 2 ^ 32" "length v + 1 < 2 ^ 32"
  shows "\<exists>r'. updateField r i v = Inr (True, r') \<and>
           unat (field_offset (directory_entries r' ! i)) = length (raw_data r) \<and>
           unat (field_length (directory_entries r' ! i)) = length v + 1 \<and>
           raw_data r' = raw_data r @ v @ [CHR 0x1E] \<and>
           length (raw_data r) < length (raw_data r') \<and>
           take (length (raw_data r)) (raw_data r') = raw_data r \<and>
           leader r' = leader r \<and>
           length (directory_entries r') = length (directory_entries r) \<and>
           tag (directory_entries r' ! i) = tag (directory_entries r ! i) \<and>
           (\<forall>j. j \<noteq> i \<longrightarrow> directory_entries r' ! j = directory_entries r ! j) \<and>
           (\<forall>j. j \<noteq> i \<longrightarrow> within_raw_data r j \<longrightarrow> getFieldData r' j = getFieldData r j) \<and>
           getFieldData r' i = Inr v"
proof -
  define e where "e = (directory_entries r ! i)
      \<lparr>field_length := of_nat (length v + 1), field_offset := of_nat (length (raw_data r))\<rparr>"
  define r' where "r' = r\<lparr>directory_entries := (directory_entries r)[i := e],
                           raw_data := raw_data r @ v @ [CHR 0x1E]\<rparr>"
  have upd: "updateField r i v = Inr (True, r')"
    using valid by (simp add: updateField_def Let_def r'_def e_def)
  have at_i: "directory_entries r' ! i = e"
    using valid by (simp add: r'_def)
  have off: "unat (field_offset e) = length (raw_data r)"
    using fits by (simp add: e_def unat_of_nat)
  have len: "unat (field_length e) = length v + 1"
    using fits(2) unat_of_nat_32 [of "length v + 1"] by (simp add: e_def)
  have len1: "unat (field_length e - 1) = length v"
    using fits(2) unat_of_nat_Suc_minus_1 [of "length v"] by (simp add: e_def)
  have others: "\<forall>j. j \<noteq> i \<longrightarrow> directory_entries r' ! j = directory_entries r ! j"
    by (simp add: r'_def)
  have data_i: "getFieldData r' i = Inr v"
  proof -
    have inside: "i < length (directory_entries r')"
      using valid by (simp add: r'_def)
    show ?thesis
      using off len1 string_from_appended [of "raw_data r" v "CHR 0x1E"]
      by (simp add: getFieldData_at [OF inside] at_i) (simp add: r'_def)
  qed
  have frame: "getFieldData r' j = getFieldData r j" if "j \<noteq> i" "within_raw_data r j" for j
  proof (cases "j < length (directory_entries r)")
    case True
    let ?e = "directory_entries r ! j"
    have "unat (field_offset ?e) + unat (field_length ?e - 1) \<le> length (raw_data r)"
      using that(2) True unat_minus_1 [of "field_length ?e"] by (simp add: within_raw_data_def, arith)
    then have "string_from (raw_data r @ v @ [CHR 0x1E]) (unat (field_offset ?e)) (unat (field_length ?e - 1))
             = string_from (raw_data r) (unat (field_offset ?e)) (unat (field_length ?e - 1))"
      by (rule string_from_within)
    then show ?thesis
      using True that(1) by (simp add: getFieldData_at r'_def)
  next
    case False
    then show ?thesis by (simp add: getFieldData_def reaches_end_def r'_def)
  qed
  have "raw_data r' = raw_data r @ v @ [CHR 0x1E]" by (simp add: r'_def)
  moreover have "leader r' = leader r" by (simp add: r'_def)
  moreover have "length (directory_entries r') = length (directory_entries r)" by (simp add: r'_def)
  moreover have "tag (directory_entries r' ! i) = tag (directory_entries r ! i)"
    by (simp add: at_i e_def)
  ultimately show ?thesis
    using upd at_i off len others data_i frame by (intro exI [of _ r']) simp
qed

theorem updateField_appends_witness:
  "0 < length (directory_entries example_record) \<and>
   length (raw_data example_record) < 2 ^ 32 \<and> length ''xy'' + 1 < (2 :: nat) ^ 32 \<and>
   within_raw_data example_record 1 \<and>
   (\<exists>r'. updateField example_record 0 ''xy'' = Inr (True, r') \<and>
      raw_data r' = ''123'' @ [CHR 0x1E] @ ''de'' @ [CHR 0x1E] @ ''xy'' @ [CHR 0x1E] \<and>
      unat (field_offset (directory_entries r' ! 0)) = 7 \<and>
      unat (field_length (directory_entries r' ! 0)) = 3 \<and>
      getFieldData r' 0 = Inr ''xy'' \<and>
      getFieldData r' 1 = Inr ''de'')"
proof -
  have valid: "0 < length (directory_entries example_record)"
    by (simp add: example_record_def)
  have fits1: "length (raw_data example_record) < 2 ^ 32"
    by (simp add: example_record_def)
  have fits2: "length ''xy'' + 1 < (2 :: nat) ^ 32"
    by simp
  have inv: "within_raw_data example_record 1"
    by (simp add: within_raw_data_def example_record_def)
  have old: "getFieldData example_record 1 = Inr ''de''"
    by (simp add: getFieldData_at example_record_def string_from_def)
  from updateField_appends [OF valid fits1 fits2]
  obtain r' where r': "updateField example_record 0 ''xy'' = Inr (True, r')"
      "unat (field_offset (directory_entries r' ! 0)) = length (raw_data example_record)"
      "unat (field_length (directory_entries r' ! 0)) = length ''xy'' + 1"
      "raw_data r' = raw_data example_record @ ''xy'' @ [CHR 0x1E]"
      "\<forall>j. j \<noteq> 0 \<longrightarrow> within_raw_data example_record j
           \<longrightarrow> getFieldData r' j = getFieldData example_record j"
      "getFieldData r' 0 = Inr ''xy''"
    by blast
  have "getFieldData r' 1 = Inr ''de''"
    using r'(5) inv old by simp
  moreover have "raw_data r' = ''123'' @ [CHR 0x1E] @ ''de'' @ [CHR 0x1E] @ ''xy'' @ [CHR 0x1E]"
    using r'(4) by (simp add: example_record_def)
  moreover have "unat (field_offset (directory_entries r' ! 0)) = 7"
    using r'(2) by (simp add: example_record_def)
  moreover have "unat (field_length (directory_entries r' ! 0)) = 3"
    using r'(3) by simp
  ultimately show ?thesis
    using valid fits1 fits2 inv r'(1) r'(6) by blast
qed

subsection \<open>insertField and getFieldIndex\<close>

text \<open>
  C1, as the claim states it, fails. A record holds the field \<open>001\<close> with the
  contents \<open>old\<close>. \<^verbatim>\<open>insertField("001", "new")\<close> moves past that entry, whose tag is
  not greater than the new one, and inserts behind it; \<^verbatim>\<open>getFieldIndex("001")\<close>
  answers the first entry with the tag, and the field there still reads \<open>old\<close>.
\<close>

theorem insertField_same_tag_counterexample:
  "getFieldData
     (snd (insertField \<lparr>leader = [], raw_data = ''old'' @ [CHR 0x1E],
                        directory_entries = [\<lparr>tag = ''001'', field_length = 4, field_offset = 0\<rparr>]\<rparr>
             ''001'' ''new''))
     (getFieldIndex
        (snd (insertField \<lparr>leader = [], raw_data = ''old'' @ [CHR 0x1E],
                        directory_entries = [\<lparr>tag = ''001'', field_length = 4, field_offset = 0\<rparr>]\<rparr>
             ''001'' ''new'')) ''001'')
   = Inr ''old'' \<and>
   getFieldData
     (snd (insertField \<lparr>leader = [], raw_data = ''old'' @ [CHR 0x1E],
                        directory_entries = [\<lparr>tag = ''001'', field_length = 4, field_offset = 0\<rparr>]\<rparr>
             ''001'' ''new''))
     (getFieldIndex
        (snd (insertField \<lparr>leader = [], raw_data = ''old'' @ [CHR 0x1E],
                        directory_entries = [\<lparr>tag = ''001'', field_length = 4, field_offset = 0\<rparr>]\<rparr>
             ''001'' ''new'')) ''001'')
   \<noteq> Inr ''new''"
  by (simp add: insertField_def getFieldIndex_def getFieldData_at string_from_def
      insertion_location_from.simps getFieldIndex_from.simps)

text \<open>
  C1, amended. After \<^verbatim>\<open>insertField(tag, value)\<close> the field at the index it returns
  reads \<open>value\<close>, and \<^verbatim>\<open>getFieldIndex(tag)\<close> returns that index when the record
  held no field with the tag before the insertion. The sizes are those an
  \<^verbatim>\<open>unsigned\<close> member of a directory entry can hold.
\<close>

theorem insertField_then_getFieldIndex:
  assumes fits: "length (raw_data r) < 2 ^ 32" "length v + 1 < 2 ^ 32"
  shows "getFieldData (snd (insertField r t v)) (fst (insertField r t v)) = Inr v \<and>
         ((\<forall>e \<in> set (directory_entries r). tag e \<noteq> t) \<longrightarrow>
            getFieldIndex (snd (insertField r t v)) t = fst (insertField r t v))"
proof -
  define es where "es = directory_entries r"
  define p where "p = insertion_location_from es t 0"
  define e where "e = \<lparr>tag = t, field_length = of_nat (length v + 1) :: 32 word,
                        field_offset = of_nat (length (raw_data r)) :: 32 word\<rparr>"
  define es' where "es' = take p es @ [e] @ drop p es"
  have p_le: "p \<le> length es"
    using insertion_location_bounds [of 0 es t] by (simp add: p_def)
  have fst_eq: "fst (insertField r t v) = p"
    by (simp add: insertField_def Let_def p_def es_def)
  have es'_eq: "directory_entries (snd (insertField r t v)) = es'"
    by (simp add: insertField_def Let_def p_def es_def es'_def e_def)
  have raw_eq: "raw_data (snd (insertField r t v)) = raw_data r @ v @ [CHR 0x1E]"
    by (simp add: insertField_def Let_def)
  have at_p: "es' ! p = e"
    using p_le by (simp add: es'_def nth_append)
  have len': "p < length es'"
    using p_le by (simp add: es'_def)
  have off: "unat (field_offset e) = length (raw_data r)"
    using fits(1) by (simp add: e_def unat_of_nat)
  have len1: "unat (field_length e - 1) = length v"
    using fits(2) unat_of_nat_Suc_minus_1 [of "length v"] by (simp add: e_def)
  have data: "getFieldData (snd (insertField r t v)) p = Inr v"
    using len' off len1 string_from_appended [of "raw_data r" v "CHR 0x1E"]
    by (simp add: getFieldData_at Let_def es'_eq raw_eq at_p)
  have idx: "getFieldIndex (snd (insertField r t v)) t = p"
    if fresh: "\<forall>e \<in> set (directory_entries r). tag e \<noteq> t"
  proof -
    have before: "\<forall>j. 0 \<le> j \<and> j < p \<longrightarrow> tag (es' ! j) \<noteq> t"
    proof (intro allI impI)
      fix j assume "0 \<le> j \<and> j < p"
      then have "es' ! j = es ! j" "j < length es"
        using p_le by (simp_all add: es'_def nth_append)
      then show "tag (es' ! j) \<noteq> t"
        using fresh by (simp add: es_def)
    qed
    have "tag (es' ! p) = t" by (simp add: at_p e_def)
    then have "getFieldIndex_from es' t 0 = p"
      using getFieldIndex_from_first [of 0 p es' t] len' before by simp
    then show ?thesis by (simp add: getFieldIndex_def es'_eq)
  qed
  show ?thesis using data idx by (simp add: fst_eq)
qed

theorem insertField_then_getFieldIndex_witness:
  "length (raw_data example_record) < 2 ^ 32 \<and> length ''Title'' + 1 < (2 :: nat) ^ 32 \<and>
   ''100'' \<notin> set (map tag (directory_entries example_record)) \<and>
   fst (insertField example_record ''100'' ''Title'') = 1 \<and>
   getFieldIndex (snd (insertField example_record ''100'' ''Title'')) ''100'' = 1 \<and>
   getFieldData (snd (insertField example_record ''100'' ''Title'')) 1 = Inr ''Title''"
proof -
  have fits1: "length (raw_data example_record) < 2 ^ 32"
    by (simp add: example_record_def)
  have fits2: "length ''Title'' + 1 < (2 :: nat) ^ 32"
    by simp
  have fresh: "\<forall>e \<in> set (directory_entries example_record). tag e \<noteq> ''100''"
    by (simp add: example_record_def)
  have at: "fst (insertField example_record ''100'' ''Title'') = 1"
    by (simp add: insertField_def example_record_def insertion_location_from.simps)
  have absent: "''100'' \<notin> set (map tag (directory_entries example_record))"
    by (simp add: example_record_def)
  show ?thesis
    using fits1 fits2 fresh at absent
      insertField_then_getFieldIndex [OF fits1 fits2, of "''100''"]
    by simp
qed

subsection \<open>getFieldIndices\<close>

text \<open>
  C5, as the claim states it, fails: the scan starts at the first match and stops at
  the first entry with another tag. For the tags \<open>700\<close>, \<open>245\<close>, \<open>700\<close> the call
  \<^verbatim>\<open>getFieldIndices("700")\<close> returns the index 0 alone, while the entries with the tag
  are 0 and 2.
\<close>

theorem getFieldIndices_separate_runs_counterexample:
  "getFieldIndices
     \<lparr>leader = [], raw_data = [],
      directory_entries = [\<lparr>tag = ''700'', field_length = 0, field_offset = 0\<rparr>,
                           \<lparr>tag = ''245'', field_length = 0, field_offset = 0\<rparr>,
                           \<lparr>tag = ''700'', field_length = 0, field_offset = 0\<rparr>]\<rparr> ''700''
     = [0] \<and>
   filter (\<lambda>j. tag ([\<lparr>tag = ''700'', field_length = 0, field_offset = 0\<rparr>,
                       \<lparr>tag = ''245'', field_length = 0, field_offset = 0\<rparr>,
                       \<lparr>tag = ''700'', field_length = 0 :: 32 word, field_offset = 0 :: 32 word\<rparr>] ! j)
                  = ''700'') [0 ..< 3]
     = [0, 2]"
  by (simp add: getFieldIndices_def getFieldIndex_def getFieldIndex_from.simps
      getFieldIndices_from.simps upt_rec)

text \<open>
  C5, amended. \<^verbatim>\<open>getFieldIndices(t)\<close> returns, in ascending order, the indices of the
  run of entries with tag \<open>t\<close> that starts at the first entry with that tag (and
  nothing when there is none). When the entries with tag \<open>t\<close> form one run, as in a
  tag-sorted directory, these are the indices of all entries with tag \<open>t\<close>.
\<close>

theorem getFieldIndices_contiguous_run:
  "getFieldIndices r t =
     [getFieldIndex r t ..<
        getFieldIndex r t
          + length (takeWhile (\<lambda>e. tag e = t) (drop (getFieldIndex r t) (directory_entries r)))] \<and>
   (same_tag_contiguous (directory_entries r) t \<longrightarrow>
      getFieldIndices r t
        = filter (\<lambda>j. tag (directory_entries r ! j) = t) [0 ..< length (directory_entries r)])"
proof -
  define es where "es = directory_entries r"
  define A where "A = takeWhile (\<lambda>e. tag e \<noteq> t) es"
  define B where "B = takeWhile (\<lambda>e. tag e = t) (dropWhile (\<lambda>e. tag e \<noteq> t) es)"
  define C where "C = dropWhile (\<lambda>e. tag e = t) (dropWhile (\<lambda>e. tag e \<noteq> t) es)"
  have run: "getFieldIndices r t =
     [getFieldIndex r t ..<
        getFieldIndex r t + length (takeWhile (\<lambda>e. tag e = t) (drop (getFieldIndex r t) es))]"
    using getFieldIndices_from_run [of es t "getFieldIndex r t" "[]"]
    by (simp add: getFieldIndices_def es_def)
  have es_eq: "es = A @ B @ C"
    by (simp add: A_def B_def C_def)
  have A_no: "\<forall>e \<in> set A. tag e \<noteq> t"
    by (auto simp: A_def dest: set_takeWhileD)
  have B_all: "\<forall>e \<in> set B. tag e = t"
    by (auto simp: B_def dest: set_takeWhileD)
  have all: "getFieldIndices r t = filter (\<lambda>j. tag (es ! j) = t) [0 ..< length es]"
    if contig: "same_tag_contiguous es t"
  proof -
    have C_no: "\<forall>e \<in> set C. tag e \<noteq> t"
      using contig unfolding same_tag_contiguous_def C_def .
    have P_iff: "tag (es ! j) = t \<longleftrightarrow> length A \<le> j \<and> j < length A + length B"
      if "j < length es" for j
    proof (cases "j < length A")
      case True
      then have "es ! j \<in> set A" by (simp add: es_eq nth_append)
      then have "tag (es ! j) \<noteq> t" using A_no by blast
      then show ?thesis using True by (simp add: not_le)
    next
      case nA: False
      show ?thesis
      proof (cases "j < length A + length B")
        case True
        then have "es ! j = B ! (j - length A)" "j - length A < length B"
          using nA by (simp_all add: es_eq nth_append)
        then have "es ! j \<in> set B" by simp
        then have "tag (es ! j) = t" using B_all by blast
        then show ?thesis using True nA by simp
      next
        case False
        then have "es ! j = C ! (j - length A - length B)" "j - length A - length B < length C"
          using nA that by (simp_all add: es_eq nth_append)
        then have "es ! j \<in> set C" by simp
        then have "tag (es ! j) \<noteq> t" using C_no by blast
        then show ?thesis using False by simp
      qed
    qed
    have filt: "filter (\<lambda>j. tag (es ! j) = t) [0 ..< length es] = [length A ..< length A + length B]"
    proof -
      have "filter (\<lambda>j. tag (es ! j) = t) [0 ..< length es]
            = filter (\<lambda>j. length A \<le> j \<and> j < length A + length B) [0 ..< length es]"
        by (rule filter_cong) (simp_all add: P_iff)
      also have "\<dots> = [length A ..< length A + length B]"
        by (rule upt_filter_interval) (simp add: es_eq)
      finally show ?thesis .
    qed
    show ?thesis
    proof (cases "B = []")
      case True
      then have "\<forall>j. 0 \<le> j \<and> j < length es \<longrightarrow> tag (es ! j) \<noteq> t"
        using P_iff by simp
      then have nf: "getFieldIndex r t = FIELD_NOT_FOUND"
        using getFieldIndex_from_absent [of 0 es t] by (simp add: getFieldIndex_def es_def)
      have "takeWhile (\<lambda>e. tag e = t) (drop FIELD_NOT_FOUND es) = []"
      proof (cases "FIELD_NOT_FOUND < length es")
        case True
        then have "drop FIELD_NOT_FOUND es = es ! FIELD_NOT_FOUND # drop (Suc FIELD_NOT_FOUND) es"
          by (simp add: Cons_nth_drop_Suc)
        moreover have "tag (es ! FIELD_NOT_FOUND) \<noteq> t"
          using True \<open>B = []\<close> P_iff [of FIELD_NOT_FOUND] by simp
        ultimately show ?thesis by simp
      next
        case False
        then show ?thesis by simp
      qed
      then show ?thesis using run nf filt True by simp
    next
      case False
      then have kn: "length A < length es" by (simp add: es_eq)
      have "tag (es ! length A) = t"
        using P_iff [of "length A"] kn False by simp
      moreover have "\<forall>j. 0 \<le> j \<and> j < length A \<longrightarrow> tag (es ! j) \<noteq> t"
        using P_iff kn by simp
      ultimately have k: "getFieldIndex r t = length A"
        using getFieldIndex_from_first [of 0 "length A" es t] kn
        by (simp add: getFieldIndex_def es_def)
      have "drop (length A) es = B @ C" by (simp add: es_eq)
      moreover have "takeWhile (\<lambda>e. tag e = t) (B @ C) = B"
        using B_all C_no by (cases C) (simp_all add: takeWhile_append2)
      ultimately show ?thesis using run k filt by simp
    qed
  qed
  show ?thesis using run all by (simp add: es_def)
qed


theorem getFieldIndices_contiguous_run_witness:
  "same_tag_contiguous
     [\<lparr>tag = ''245'', field_length = 0, field_offset = 0\<rparr>,
      \<lparr>tag = ''700'', field_length = 0, field_offset = 0\<rparr>,
      \<lparr>tag = ''700'', field_length = 0, field_offset = 0\<rparr>,
      \<lparr>tag = ''856'', field_length = 0, field_offset = 0\<rparr>] ''700'' \<and>
   getFieldIndices
     \<lparr>leader = [], raw_data = [],
      directory_entries = [\<lparr>tag = ''245'', field_length = 0, field_offset = 0\<rparr>,
                           \<lparr>tag = ''700'', field_length = 0, field_offset = 0\<rparr>,
                           \<lparr>tag = ''700'', field_length = 0, field_offset = 0\<rparr>,
                           \<lparr>tag = ''856'', field_length = 0, field_offset = 0\<rparr>]\<rparr> ''700''
     = [1, 2]"
proof -
  let ?es = "[\<lparr>tag = ''245'', field_length = 0 :: 32 word, field_offset = 0 :: 32 word\<rparr>,
              \<lparr>tag = ''700'', field_length = 0, field_offset = 0\<rparr>,
              \<lparr>tag = ''700'', field_length = 0, field_offset = 0\<rparr>,
              \<lparr>tag = ''856'', field_length = 0, field_offset = 0\<rparr>]"
  let ?r = "\<lparr>leader = [], raw_data = [], directory_entries = ?es\<rparr>"
  have contig: "same_tag_contiguous ?es ''700''"
    by (simp add: same_tag_contiguous_def)
  then have hyp: "same_tag_contiguous (directory_entries ?r) ''700''"
    by simp
  have all: "filter (\<lambda>j. tag (directory_entries ?r ! j) = ''700'')
               [0 ..< length (directory_entries ?r)] = [1, 2]"
    by (simp add: upt_rec)
  have "getFieldIndices ?r ''700''
          = filter (\<lambda>j. tag (directory_entries ?r ! j) = ''700'')
              [0 ..< length (directory_entries ?r)]"
    using getFieldIndices_contiguous_run [of ?r "''700''"] hyp by blast
  then have "getFieldIndices ?r ''700'' = [1, 2]"
    using all by simp
  then show ?thesis
    using contig by simp
qed

subsection \<open>MergeControlFields\<close>

lemma std_max_is_max: "std_max a b = max a b"
  by (auto simp: std_max_def max_def)

text \<open>
  C10. For the tag \<open>005\<close> \<^verbatim>\<open>MergeControlFields\<close> returns the field whose contents are
  the lexicographic maximum of the two contents, so the two contents may be exchanged;
  for every other tag it returns the field with the first contents.
\<close>

theorem MergeControlFields_005_max:
  "MergeControlFields ''005'' c1 c2 = \<lparr>field_tag = ''005'', field_contents = max c1 c2\<rparr> \<and>
   MergeControlFields ''005'' c1 c2 = MergeControlFields ''005'' c2 c1 \<and>
   (t \<noteq> ''005'' \<longrightarrow> MergeControlFields t c1 c2 = \<lparr>field_tag = t, field_contents = c1\<rparr>)"
  by (simp add: MergeControlFields_def std_max_is_max max.commute)

theorem MergeControlFields_005_max_witness:
  "''008'' \<noteq> ''005'' \<and>
   MergeControlFields ''008'' ''20160101'' ''20170101''
     = \<lparr>field_tag = ''008'', field_contents = ''20160101''\<rparr> \<and>
   MergeControlFields ''005'' ''20160101'' ''20170101''
     = \<lparr>field_tag = ''005'', field_contents = ''20170101''\<rparr> \<and>
   MergeControlFields ''005'' ''20170101'' ''20160101''
     = \<lparr>field_tag = ''005'', field_contents = ''20170101''\<rparr>"
proof -
  have m: "max ''20160101'' ''20170101'' = ''20170101''"
    by (simp add: max_def)
  note T = MergeControlFields_005_max [of "''20160101''" "''20170101''" "''008''"]
  have first: "MergeControlFields ''005'' ''20160101'' ''20170101''
                 = \<lparr>field_tag = ''005'', field_contents = ''20170101''\<rparr>"
    using T m by simp
  have swapped: "MergeControlFields ''005'' ''20170101'' ''20160101''
                   = MergeControlFields ''005'' ''20160101'' ''20170101''"
    by (rule sym) (rule T [THEN conjunct2, THEN conjunct1])
  have other: "MergeControlFields ''008'' ''20160101'' ''20170101''
                 = \<lparr>field_tag = ''008'', field_contents = ''20160101''\<rparr>"
    using T by simp
  show ?thesis
    using first swapped other by simp
qed

subsection \<open>combine\<close>

lemma combine_entries_map:
  "combine_entries off es rest
     = es @ map (\<lambda>e. e\<lparr>field_offset := field_offset e + of_nat off\<rparr>) rest"
  by (induction rest arbitrary: es) simp_all

lemma unat_offset_shift:
  "unat (w :: 32 word) + n < 2 ^ 32 \<Longrightarrow> unat (w + of_nat n) = unat w + n"
  by (simp add: unat_word_ariths unat_of_nat)

lemma string_from_shifted:
  "string_from (pre @ raw) (pos + length pre) n = string_from raw pos n"
  by (simp add: string_from_def)

text \<open>
  C6. For records \<open>r\<close> and \<open>s\<close>, where \<open>s\<close> has at least one field, \<^verbatim>\<open>r.combine(s)\<close>
  appends the raw data of \<open>s\<close> to that of \<open>r\<close> and appends to the directory of \<open>r\<close>
  every entry of \<open>s\<close> but the first, in order, with the tag and the length it has in
  \<open>s\<close> and with its offset increased by the length the raw data of \<open>r\<close> had before.
  Where that sum fits the \<^verbatim>\<open>unsigned\<close> member, \<^verbatim>\<open>getFieldData\<close> on \<open>r\<close> returns for
  the appended entry what \<^verbatim>\<open>getFieldData\<close> returned on \<open>s\<close> for the field it comes
  from. The first field of \<open>s\<close> is skipped whatever its tag is, so the statement
  holds in particular when it is the field \<open>001\<close>.
\<close>

theorem combine_appends:
  assumes nonempty: "directory_entries s \<noteq> []"
  shows "\<exists>r'. combine r s = Inr r' \<and>
           leader r' = leader r \<and>
           raw_data r' = raw_data r @ raw_data s \<and>
           length (directory_entries r')
             = length (directory_entries r) + (length (directory_entries s) - 1) \<and>
           take (length (directory_entries r)) (directory_entries r') = directory_entries r \<and>
           (\<forall>k. k + 1 < length (directory_entries s) \<longrightarrow>
              tag (directory_entries r' ! (length (directory_entries r) + k))
                = tag (directory_entries s ! (k + 1)) \<and>
              field_length (directory_entries r' ! (length (directory_entries r) + k))
                = field_length (directory_entries s ! (k + 1)) \<and>
              field_offset (directory_entries r' ! (length (directory_entries r) + k))
                = field_offset (directory_entries s ! (k + 1)) + of_nat (length (raw_data r)) \<and>
              (unat (field_offset (directory_entries s ! (k + 1))) + length (raw_data r) < 2 ^ 32 \<longrightarrow>
                 unat (field_offset (directory_entries r' ! (length (directory_entries r) + k)))
                   = unat (field_offset (directory_entries s ! (k + 1))) + length (raw_data r) \<and>
                 getFieldData r' (length (directory_entries r) + k) = getFieldData s (k + 1)))"
proof -
  define shift where
    "shift = (\<lambda>e :: DirectoryEntry. e\<lparr>field_offset := field_offset e + of_nat (length (raw_data r))\<rparr>)"
  define r' where
    "r' = r\<lparr>raw_data := raw_data r @ raw_data s,
            directory_entries := directory_entries r @ map shift (tl (directory_entries s))\<rparr>"
  have comb: "combine r s = Inr r'"
    using nonempty by (simp add: combine_def Let_def combine_entries_map r'_def shift_def)
  have es': "directory_entries r' = directory_entries r @ map shift (tl (directory_entries s))"
    by (simp add: r'_def)
  have raw': "raw_data r' = raw_data r @ raw_data s"
    by (simp add: r'_def)
  have appended: "directory_entries r' ! (length (directory_entries r) + k)
                    = shift (directory_entries s ! (k + 1))"
    if "k + 1 < length (directory_entries s)" for k
    using that by (simp add: es' nth_append nth_tl)
  have entry: "tag (directory_entries r' ! (length (directory_entries r) + k))
                = tag (directory_entries s ! (k + 1)) \<and>
              field_length (directory_entries r' ! (length (directory_entries r) + k))
                = field_length (directory_entries s ! (k + 1)) \<and>
              field_offset (directory_entries r' ! (length (directory_entries r) + k))
                = field_offset (directory_entries s ! (k + 1)) + of_nat (length (raw_data r))"
    if "k + 1 < length (directory_entries s)" for k
    using appended [OF that] by (simp add: shift_def)
  have data: "unat (field_offset (directory_entries r' ! (length (directory_entries r) + k)))
                   = unat (field_offset (directory_entries s ! (k + 1))) + length (raw_data r) \<and>
              getFieldData r' (length (directory_entries r) + k) = getFieldData s (k + 1)"
    if k: "k + 1 < length (directory_entries s)"
      and fits: "unat (field_offset (directory_entries s ! (k + 1))) + length (raw_data r) < 2 ^ 32"
    for k
  proof -
    let ?e = "directory_entries s ! (k + 1)"
    have off: "unat (field_offset (shift ?e)) = unat (field_offset ?e) + length (raw_data r)"
      using fits by (simp add: shift_def unat_offset_shift)
    have len: "field_length (shift ?e) = field_length ?e"
      by (simp add: shift_def)
    have inside: "length (directory_entries r) + k < length (directory_entries r')"
      using k by (simp add: es')
    have "getFieldData r' (length (directory_entries r) + k)
            = string_from (raw_data r @ raw_data s)
                (unat (field_offset ?e) + length (raw_data r)) (unat (field_length ?e - 1))"
      using inside appended [OF k] off len by (simp add: getFieldData_at Let_def raw')
    also have "\<dots> = string_from (raw_data s) (unat (field_offset ?e)) (unat (field_length ?e - 1))"
      by (rule string_from_shifted)
    also have "\<dots> = getFieldData s (k + 1)"
      using k by (simp add: getFieldData_at Let_def)
    finally show ?thesis
      using appended [OF k] off by simp
  qed
  have "leader r' = leader r" by (simp add: r'_def)
  moreover have "length (directory_entries r')
             = length (directory_entries r) + (length (directory_entries s) - 1)"
    by (simp add: es')
  moreover have "take (length (directory_entries r)) (directory_entries r') = directory_entries r"
    by (simp add: es')
  ultimately show ?thesis
    using comb raw' entry data by (intro exI [of _ r']) simp
qed

theorem combine_appends_witness:
  "directory_entries example_other \<noteq> [] \<and>
   tag (directory_entries example_other ! 0) = ''001'' \<and>
   (\<exists>r'. combine example_record example_other = Inr r' \<and>
      map tag (directory_entries r') = [''001'', ''245'', ''700''] \<and>
      unat (field_offset (directory_entries r' ! 2)) = 11 \<and>
      getFieldData r' 2 = Inr (''  '' @ [CHR 0x1F] @ ''aX'') \<and>
      getFieldData example_other 1 = Inr (''  '' @ [CHR 0x1F] @ ''aX''))"
proof -
  have nonempty: "directory_entries example_other \<noteq> []"
    by (simp add: example_other_def)
  have first: "tag (directory_entries example_other ! 0) = ''001''"
    by (simp add: example_other_def)
  have old: "getFieldData example_other 1 = Inr (''  '' @ [CHR 0x1F] @ ''aX'')"
    by (simp add: getFieldData_at example_other_def string_from_def)
  from combine_appends [OF nonempty, of example_record]
  obtain r' where r': "combine example_record example_other = Inr r'"
    and app: "\<forall>k. k + 1 < length (directory_entries example_other) \<longrightarrow>
              tag (directory_entries r' ! (length (directory_entries example_record) + k))
                = tag (directory_entries example_other ! (k + 1)) \<and>
              field_length (directory_entries r' ! (length (directory_entries example_record) + k))
                = field_length (directory_entries example_other ! (k + 1)) \<and>
              field_offset (directory_entries r' ! (length (directory_entries example_record) + k))
                = field_offset (directory_entries example_other ! (k + 1))
                    + of_nat (length (raw_data example_record)) \<and>
              (unat (field_offset (directory_entries example_other ! (k + 1)))
                   + length (raw_data example_record) < 2 ^ 32 \<longrightarrow>
                 unat (field_offset (directory_entries r' ! (length (directory_entries example_record) + k)))
                   = unat (field_offset (directory_entries example_other ! (k + 1)))
                       + length (raw_data example_record) \<and>
                 getFieldData r' (length (directory_entries example_record) + k)
                   = getFieldData example_other (k + 1))"
    by blast
  have two: "length (directory_entries example_record) = 2"
    by (simp add: example_record_def)
  have k0: "0 + 1 < length (directory_entries example_other)"
    by (simp add: example_other_def)
  have fits: "unat (field_offset (directory_entries example_other ! (0 + 1)))
                + length (raw_data example_record) < 2 ^ 32"
    by (simp add: example_other_def example_record_def)
  have "unat (field_offset (directory_entries r' ! (2 + 0)))
          = unat (field_offset (directory_entries example_other ! (0 + 1)))
              + length (raw_data example_record) \<and>
        getFieldData r' (2 + 0) = getFieldData example_other (0 + 1)"
    using app [rule_format, OF k0] fits unfolding two by blast
  then have at2: "unat (field_offset (directory_entries r' ! 2)) = 11"
      "getFieldData r' 2 = Inr (''  '' @ [CHR 0x1F] @ ''aX'')"
    using old by (simp_all add: example_other_def example_record_def)
  have tags: "map tag (directory_entries r') = [''001'', ''245'', ''700'']"
    using r' by (auto simp: combine_def Let_def combine_entries_map example_record_def
        example_other_def)
  show ?thesis
    by (intro conjI exI [of _ r'] nonempty first r' tags at2 old)
qed

subsection \<open>filterTags\<close>

lemma skip_run_eq:
  "skip_run es t i = i + length (takeWhile (\<lambda>e. tag e = t) (drop i es))"
proof (induction es t i rule: skip_run.induct)
  case (1 es t i)
  show ?case
  proof (cases "i < length es \<and> tag (es ! i) = t")
    case True
    then have d: "drop i es = es ! i # drop (i + 1) es"
      by (simp add: Cons_nth_drop_Suc)
    have "skip_run es t i = skip_run es t (i + 1)"
      using True by (subst skip_run.simps) simp
    also have "\<dots> = i + 1 + length (takeWhile (\<lambda>e. tag e = t) (drop (i + 1) es))"
      using "1.IH" True by simp
    also have "\<dots> = i + length (takeWhile (\<lambda>e. tag e = t) (drop i es))"
    proof -
      have "length (takeWhile (\<lambda>e. tag e = t) (drop i es))
              = Suc (length (takeWhile (\<lambda>e. tag e = t) (drop (i + 1) es)))"
        using True by (subst d) simp
      then show ?thesis by simp
    qed
    finally show ?thesis .
  next
    case False
    then have "takeWhile (\<lambda>e. tag e = t) (drop i es) = []"
      by (cases "i < length es") (simp_all add: Cons_nth_drop_Suc [symmetric])
    moreover have "skip_run es t i = i"
      using False by (subst skip_run.simps) auto
    ultimately show ?thesis by simp
  qed
qed

lemma filterTags_loop_acc:
  "filterTags_loop es D i acc = acc @ filterTags_loop es D i []"
proof (induction "length es - i" arbitrary: i acc rule: less_induct)
  case less
  show ?case
  proof (cases "i < length es")
    case False
    then show ?thesis by (simp add: filterTags_loop.simps)
  next
    case inside: True
    show ?thesis
    proof (cases "tag (es ! i) \<in> D")
      case False
      have "filterTags_loop es D i acc = filterTags_loop es D (i + 1) acc"
        using inside False by (subst filterTags_loop.simps) simp
      also have "\<dots> = acc @ filterTags_loop es D (i + 1) []"
        using less.hyps [of "i + 1" acc] inside by simp
      also have "filterTags_loop es D (i + 1) [] = filterTags_loop es D i []"
        using inside False by (subst (2) filterTags_loop.simps) simp
      finally show ?thesis .
    next
      case True
      define e where "e = skip_run es (tag (es ! i)) i"
      have "i \<le> e" by (simp add: e_def skip_run_eq)
      then have smaller: "length es - (e + 1) < length es - i"
        using inside by simp
      have "filterTags_loop es D i acc = filterTags_loop es D (e + 1) (acc @ [(i, e)])"
        using inside True by (subst filterTags_loop.simps) (simp add: e_def)
      also have "\<dots> = (acc @ [(i, e)]) @ filterTags_loop es D (e + 1) []"
        using less.hyps [OF smaller] .
      also have "\<dots> = acc @ ([(i, e)] @ filterTags_loop es D (e + 1) [])"
        by simp
      also have "[(i, e)] @ filterTags_loop es D (e + 1) [] = filterTags_loop es D (e + 1) [(i, e)]"
        using less.hyps [OF smaller, of "[(i, e)]"] by simp
      also have "\<dots> = filterTags_loop es D i []"
        using inside True by (subst (2) filterTags_loop.simps) (simp add: e_def)
      finally show ?thesis .
    qed
  qed
qed

lemma copy_range_ok:
  "a \<le> b \<Longrightarrow> b \<le> length es \<Longrightarrow> copy_range es a b = Inr (take (b - a) (drop a es))"
  by (simp add: copy_range_def)

lemma deleteFields_filterTags_single:
  "cs \<le> i \<Longrightarrow> cs \<le> length es \<Longrightarrow>
   deleteFields_loop es cs new (filterTags_loop es {t} i [])
     = Inr (new @ take (min i (length es) - cs) (drop cs es)
              @ filter (\<lambda>e. tag e \<noteq> t) (drop i es))"
proof (induction "length es - i" arbitrary: i cs new rule: less_induct)
  case less
  show ?case
  proof (cases "i < length es")
    case False
    then have "filterTags_loop es {t} i [] = []"
      by (simp add: filterTags_loop.simps)
    then show ?thesis
      using False less.prems by (simp add: copy_range_ok)
  next
    case inside: True
    show ?thesis
    proof (cases "tag (es ! i) = t")
      case False
      have loop: "filterTags_loop es {t} i [] = filterTags_loop es {t} (i + 1) []"
        using inside False by (subst filterTags_loop.simps) simp
      have IH: "deleteFields_loop es cs new (filterTags_loop es {t} (i + 1) [])
                  = Inr (new @ take (min (i + 1) (length es) - cs) (drop cs es)
                           @ filter (\<lambda>e. tag e \<noteq> t) (drop (i + 1) es))"
        using less.hyps [of "i + 1" cs new] inside less.prems by simp
      have t1: "take (min (i + 1) (length es) - cs) (drop cs es)
                  = take (min i (length es) - cs) (drop cs es) @ [es ! i]"
      proof -
        have "min (i + 1) (length es) - cs = Suc (i - cs)" "min i (length es) - cs = i - cs"
          using inside less.prems by (simp_all add: Suc_diff_le)
        moreover have "take (Suc (i - cs)) (drop cs es) = take (i - cs) (drop cs es) @ [drop cs es ! (i - cs)]"
          using inside less.prems by (intro take_Suc_conv_app_nth) simp
        moreover have "drop cs es ! (i - cs) = es ! i"
          using inside less.prems by simp
        ultimately show ?thesis by (simp only:)
      qed
      have t2: "filter (\<lambda>e. tag e \<noteq> t) (drop i es)
                  = es ! i # filter (\<lambda>e. tag e \<noteq> t) (drop (i + 1) es)"
        using inside False by (simp add: Cons_nth_drop_Suc [symmetric])
      show ?thesis
        by (simp only: loop IH t1 t2) simp
    next
      case True
      define e where "e = skip_run es t i"
      define run where "run = takeWhile (\<lambda>e. tag e = t) (drop i es)"
      have e_eq: "e = i + length run"
        by (simp add: e_def run_def skip_run_eq)
      have run_ne: "run \<noteq> []"
        using inside True by (simp add: run_def Cons_nth_drop_Suc [symmetric])
      have e_le: "e \<le> length es"
      proof -
        have "length run \<le> length (drop i es)"
          unfolding run_def by (rule length_takeWhile_le)
        then show ?thesis using inside by (simp add: e_eq)
      qed
      have i_lt_e: "i < e"
        using run_ne by (simp add: e_eq)
      have loop: "filterTags_loop es {t} i [] = (i, e) # filterTags_loop es {t} (e + 1) []"
      proof -
        have "filterTags_loop es {t} i [] = filterTags_loop es {t} (e + 1) ([] @ [(i, e)])"
          using inside True by (subst filterTags_loop.simps) (simp add: e_def)
        also have "\<dots> = [(i, e)] @ filterTags_loop es {t} (e + 1) []"
          using filterTags_loop_acc [of es "{t}" "e + 1" "[(i, e)]"] by simp
        finally show ?thesis by simp
      qed
      have IH: "deleteFields_loop es e (new @ take (i - cs) (drop cs es))
                    (filterTags_loop es {t} (e + 1) [])
                  = Inr ((new @ take (i - cs) (drop cs es))
                           @ take (min (e + 1) (length es) - e) (drop e es)
                           @ filter (\<lambda>e. tag e \<noteq> t) (drop (e + 1) es))"
        using less.hyps [of "e + 1" e "new @ take (i - cs) (drop cs es)"] inside i_lt_e e_le
        by simp
      have dw: "dropWhile (\<lambda>e. tag e = t) (drop i es) = drop e es"
      proof -
        have "dropWhile (\<lambda>e. tag e = t) (drop i es) = drop (length run) (drop i es)"
          unfolding run_def by (rule dropWhile_eq_drop)
        also have "\<dots> = drop e es"
          by (simp add: e_eq add.commute)
        finally show ?thesis .
      qed
      have split: "drop i es = run @ drop e es"
        unfolding run_def dw [symmetric] by (rule takeWhile_dropWhile_id [symmetric])
      have run_t: "filter (\<lambda>e. tag e \<noteq> t) run = []"
      proof -
        have "\<forall>x \<in> set run. tag x = t"
          unfolding run_def by (blast dest: set_takeWhileD)
        then show ?thesis by (simp add: filter_empty_conv)
      qed
      have rest: "take (min (e + 1) (length es) - e) (drop e es)
                    @ filter (\<lambda>e. tag e \<noteq> t) (drop (e + 1) es)
                  = filter (\<lambda>e. tag e \<noteq> t) (drop e es)"
      proof (cases "e < length es")
        case False
        then show ?thesis by simp
      next
        case e_in: True
        have de: "drop e es = es ! e # drop (Suc e) es"
          using e_in by (simp add: Cons_nth_drop_Suc)
        have "dropWhile (\<lambda>e. tag e = t) (drop i es) \<noteq> []"
          using e_in by (simp only: dw) simp
        then have "\<not> tag (hd (dropWhile (\<lambda>e. tag e = t) (drop i es))) = t"
          by (rule hd_dropWhile)
        then have ne: "tag (es ! e) \<noteq> t"
          by (simp add: dw de)
        have m: "min (e + 1) (length es) - e = Suc 0"
          using e_in by simp
        have "take (Suc 0) (es ! e # drop (Suc e) es) = [es ! e]"
          by simp
        then show ?thesis
          using ne by (simp only: m de) simp
      qed
      have cr: "copy_range es cs i = Inr (take (i - cs) (drop cs es))"
        using less.prems inside by (simp add: copy_range_ok)
      have "deleteFields_loop es cs new (filterTags_loop es {t} i [])
              = deleteFields_loop es e (new @ take (i - cs) (drop cs es))
                  (filterTags_loop es {t} (e + 1) [])"
        by (simp add: loop cr)
      also have "\<dots> = Inr (new @ take (i - cs) (drop cs es)
                           @ filter (\<lambda>e. tag e \<noteq> t) (drop e es))"
        using IH rest by simp
      also have "filter (\<lambda>e. tag e \<noteq> t) (drop e es) = filter (\<lambda>e. tag e \<noteq> t) (drop i es)"
        by (simp add: split run_t)
      finally show ?thesis
        using inside by (simp add: min_def)
    qed
  qed
qed

text \<open>
  C4. For every record and every tag \<open>t\<close>, \<^verbatim>\<open>filterTags({t})\<close> succeeds and leaves
  exactly the entries whose tag is not \<open>t\<close>, in their order, wherever the entries with
  tag \<open>t\<close> stood; \<^verbatim>\<open>getFieldIndex(t)\<close> then returns \<^verbatim>\<open>FIELD_NOT_FOUND\<close>.
\<close>

theorem filterTags_single_tag_removes_all:
  "\<exists>r'. filterTags r {t} = Inr r' \<and>
         directory_entries r' = filter (\<lambda>e. tag e \<noteq> t) (directory_entries r) \<and>
         raw_data r' = raw_data r \<and> leader r' = leader r \<and>
         getFieldIndex r' t = FIELD_NOT_FOUND"
proof -
  define r' where "r' = r\<lparr>directory_entries := filter (\<lambda>e. tag e \<noteq> t) (directory_entries r)\<rparr>"
  have "deleteFields_loop (directory_entries r) 0 []
          (filterTags_loop (directory_entries r) {t} 0 [])
        = Inr (filter (\<lambda>e. tag e \<noteq> t) (directory_entries r))"
    using deleteFields_filterTags_single [of 0 0 "directory_entries r" "[]" t] by simp
  then have ft: "filterTags r {t} = Inr r'"
    by (simp add: filterTags_def deleteFields_def r'_def)
  have "\<forall>j. 0 \<le> j \<and> j < length (directory_entries r') \<longrightarrow> tag (directory_entries r' ! j) \<noteq> t"
  proof (intro allI impI)
    fix j assume "0 \<le> j \<and> j < length (directory_entries r')"
    then have "directory_entries r' ! j \<in> set (filter (\<lambda>e. tag e \<noteq> t) (directory_entries r))"
      unfolding r'_def by (simp del: set_filter)
    then show "tag (directory_entries r' ! j) \<noteq> t" by simp
  qed
  then have "getFieldIndex r' t = FIELD_NOT_FOUND"
    unfolding getFieldIndex_def by (rule getFieldIndex_from_absent)
  then show ?thesis
    using ft by (intro exI [of _ r']) (simp add: r'_def)
qed

theorem filterTags_single_tag_removes_all_witness:
  "\<exists>r'. filterTags
           \<lparr>leader = [], raw_data = [],
            directory_entries = [\<lparr>tag = ''700'', field_length = 0, field_offset = 0\<rparr>,
                                 \<lparr>tag = ''245'', field_length = 0, field_offset = 0\<rparr>,
                                 \<lparr>tag = ''700'', field_length = 0, field_offset = 0\<rparr>]\<rparr>
           {''700''} = Inr r' \<and>
         map tag (directory_entries r') = [''245''] \<and>
         getFieldIndex r' ''700'' = FIELD_NOT_FOUND"
proof -
  let ?r = "\<lparr>leader = [], raw_data = [],
            directory_entries = [\<lparr>tag = ''700'', field_length = 0 :: 32 word, field_offset = 0 :: 32 word\<rparr>,
                                 \<lparr>tag = ''245'', field_length = 0, field_offset = 0\<rparr>,
                                 \<lparr>tag = ''700'', field_length = 0, field_offset = 0\<rparr>]\<rparr>"
  from filterTags_single_tag_removes_all [of ?r "''700''"]
  obtain r' where r': "filterTags ?r {''700''} = Inr r'"
    and es: "directory_entries r' = filter (\<lambda>e. tag e \<noteq> ''700'') (directory_entries ?r)"
    and nf: "getFieldIndex r' ''700'' = FIELD_NOT_FOUND"
    by blast
  have "map tag (directory_entries r') = [''245'']"
    by (simp add: es)
  then show ?thesis
    using r' nf by (intro exI [of _ r']) simp
qed

subsection \<open>findAllLocalDataBlocks\<close>





subsection \<open>findFieldsInLocalBlock\<close>











subsection \<open>The bibliographic-level patch\<close>

text \<open>
  C8, as the claim states it, fails. \<^verbatim>\<open>HasSerialParent\<close> takes the parent's control
  number from the subfield with the pattern \<^verbatim>\<open>\(.+\)(\d{8}[\dX])\<close>, which asks for
  nine characters behind the closing parenthesis. For the subfield \<open>(DE-576)123\<close> the
  pattern does not match, so the record is written with \<open>a\<close> in leader byte 7 although
  \<open>123\<close> is in the set of serial control numbers.
\<close>

theorem PatchUpArticle_short_number_counterexample:
  "record_leader example_article ! 7 = CHR ''a'' \<and>
   MarcUtil_getFieldIndex example_article ''773'' = 1 \<and>
   getFirstSubfieldValue
     (subfields (Subfields_parse (snd (record_fields example_article ! 1)))) (CHR ''w'')
     = ''(DE-576)123'' \<and>
   ''123'' \<in> {''123''} \<and>
   PatchUpArticle example_article {''123''} 0 = Inr (example_article, 0)"
  by (simp add: example_article_def PatchUpArticle_def HasAtLeastOneSerialParent_def
      HasSerialParent_def char_at_def MarcUtil_getFieldIndex_def Subfields_parse_def
      control_number_at_def)

lemma MarcUtil_getFieldIndex_from_first:
  "i < length fs \<Longrightarrow> fst (fs ! i) = t \<Longrightarrow> \<forall>j < i. fst (fs ! j) \<noteq> t \<Longrightarrow>
   MarcUtil_getFieldIndex_from fs t k = k + int i"
proof (induction fs arbitrary: i k)
  case Nil
  then show ?case by simp
next
  case (Cons f fs)
  show ?case
  proof (cases i)
    case 0
    then show ?thesis using Cons.prems by simp
  next
    case (Suc i')
    then have "fst f \<noteq> t" using Cons.prems(3) by auto
    moreover have "MarcUtil_getFieldIndex_from fs t (k + 1) = k + 1 + int i'"
      using Cons.prems Suc by (intro Cons.IH) auto
    ultimately show ?thesis using Suc by simp
  qed
qed

lemma match_rest_short: "length u \<le> 9 \<Longrightarrow> match_rest u = None"
  by (induction u) (auto simp: control_number_at_def)

lemma match_rest_greedy:
  "CHR 0x0A \<notin> set x \<Longrightarrow> control_number_at ppn \<Longrightarrow> length ppn = 9 \<Longrightarrow>
   match_rest (x @ CHR '')'' # ppn) = Some ppn"
proof (induction x)
  case Nil
  have "match_rest ppn = None" using Nil.prems(3) by (simp add: match_rest_short)
  then show ?case using Nil.prems by simp
next
  case (Cons c x)
  then have "match_rest (x @ CHR '')'' # ppn) = Some ppn" by simp
  moreover have "c \<noteq> CHR 0x0A" using Cons.prems(1) by auto
  ultimately show ?case by simp
qed

lemma regex_search_parenthesised:
  assumes "x \<noteq> []" "CHR 0x0A \<notin> set x" "control_number_at ppn" "length ppn = 9"
  shows "regex_search (''('' @ x @ '')'' @ ppn) = Some ppn"
proof -
  obtain d x' where x: "x = d # x'" using assms(1) by (cases x) auto
  have "match_rest (x' @ CHR '')'' # ppn) = Some ppn"
    using assms x by (intro match_rest_greedy) auto
  moreover have "d \<noteq> CHR 0x0A" using assms(2) x by auto
  ultimately show ?thesis using x by simp
qed

lemma HasSerialParent_total:
  "3 \<le> length subfield \<Longrightarrow> \<exists>b. HasSerialParent subfield rcd serials = Inr b"
  by (auto simp: HasSerialParent_def char_at_def Let_def split: option.splits)

lemma any_serial_parent_last:
  "\<forall>sf \<in> set sfs. 3 \<le> length sf \<Longrightarrow> HasSerialParent last_sf rcd serials = Inr True \<Longrightarrow>
   any_serial_parent (sfs @ [last_sf]) rcd serials = Inr True"
proof (induction sfs)
  case Nil
  then show ?case by simp
next
  case (Cons sf sfs)
  obtain b where "HasSerialParent sf rcd serials = Inr b"
    using HasSerialParent_total [of sf rcd serials] Cons.prems(1) by auto
  then show ?case using Cons by simp
qed

text \<open>
  C8, amended. For a record whose leader byte 7 is \<open>a\<close> and whose first field \<open>773\<close>
  has as its first subfield \<open>w\<close> a parenthesised prefix such as \<open>(DE-576)\<close> (not empty,
  without a line feed) followed by a control number of eight digits and a ninth
  character that is a digit or \<open>X\<close>, where that control number is in the set of
  serial control numbers, \<^verbatim>\<open>PatchUpArticle\<close> writes the record with leader byte 7 set
  to \<open>b\<close> and counts one more patched record.
\<close>

theorem PatchUpArticle_flips_level:
  assumes leader: "7 < length (record_leader rcd)" "record_leader rcd ! 7 = CHR ''a''"
      and first: "i < length (record_fields rcd)" "fst (record_fields rcd ! i) = ''773''"
                 "\<forall>j < i. fst (record_fields rcd ! j) \<noteq> ''773''"
      and w: "getFirstSubfieldValue
                (subfields (Subfields_parse (snd (record_fields rcd ! i)))) (CHR ''w'')
              = ''('' @ x @ '')'' @ ppn"
      and x: "x \<noteq> []" "CHR 0x0A \<notin> set x"
      and ppn: "length ppn = 9" "list_all is_digit (take 8 ppn)"
               "is_digit (ppn ! 8) \<or> ppn ! 8 = CHR ''X''"
      and serial: "ppn \<in> serial_control_numbers"
  shows "PatchUpArticle rcd serial_control_numbers patch_count
           = Inr (rcd\<lparr>record_leader := (record_leader rcd)[7 := CHR ''b'']\<rparr>,
                  patch_count + 1)"
proof -
  have idx: "MarcUtil_getFieldIndex rcd ''773'' = int i"
    using MarcUtil_getFieldIndex_from_first [OF first, of 0]
    by (simp add: MarcUtil_getFieldIndex_def)
  have cn: "control_number_at ppn"
    using ppn by (simp add: control_number_at_def)
  have found: "regex_search (''('' @ x @ '')'' @ ppn) = Some ppn"
    using x cn ppn(1) by (rule regex_search_parenthesised)
  have "HasSerialParent ''773w'' rcd serial_control_numbers = Inr True"
    using idx w found serial by (simp add: HasSerialParent_def char_at_def Let_def)
  then have "any_serial_parent ([''800w'', ''810w'', ''830w''] @ [''773w'']) rcd
               serial_control_numbers = Inr True"
    by (intro any_serial_parent_last) simp_all
  then have "HasAtLeastOneSerialParent ''800w:810w:830w:773w'' rcd serial_control_numbers
               = Inr True"
    by (simp add: HasAtLeastOneSerialParent_def)
  then show ?thesis
    using leader by (simp add: PatchUpArticle_def)
qed

theorem PatchUpArticle_flips_level_witness:
  "7 < length (record_leader example_article_ppn) \<and>
   record_leader example_article_ppn ! 7 = CHR ''a'' \<and>
   fst (record_fields example_article_ppn ! 1) = ''773'' \<and>
   fst (record_fields example_article_ppn ! 0) \<noteq> ''773'' \<and>
   getFirstSubfieldValue
     (subfields (Subfields_parse (snd (record_fields example_article_ppn ! 1)))) (CHR ''w'')
     = ''('' @ ''DE-576'' @ '')'' @ ''12345678X'' \<and>
   ''12345678X'' \<in> {''12345678X'', ''987654321''} \<and>
   PatchUpArticle example_article_ppn {''12345678X'', ''987654321''} 0
     = Inr (example_article_ppn\<lparr>record_leader := ''00000nab a2200000 a 4500''\<rparr>, 1)"
proof -
  have l1: "7 < length (record_leader example_article_ppn)"
    and l2: "record_leader example_article_ppn ! 7 = CHR ''a''"
    by (simp_all add: example_article_ppn_def)
  have f1: "1 < length (record_fields example_article_ppn)"
    and f2: "fst (record_fields example_article_ppn ! 1) = ''773''"
    and f0: "fst (record_fields example_article_ppn ! 0) \<noteq> ''773''"
    by (simp_all add: example_article_ppn_def)
  have f3: "\<forall>j < 1. fst (record_fields example_article_ppn ! j) \<noteq> ''773''"
    using f0 by simp
  have w: "getFirstSubfieldValue
             (subfields (Subfields_parse (snd (record_fields example_article_ppn ! 1)))) (CHR ''w'')
           = ''('' @ ''DE-576'' @ '')'' @ ''12345678X''"
    by (simp add: example_article_ppn_def Subfields_parse_def)
  have x1: "''DE-576'' \<noteq> []" and x2: "CHR 0x0A \<notin> set ''DE-576''"
    by simp_all
  have p1: "length ''12345678X'' = 9"
    and p2: "list_all is_digit (take 8 ''12345678X'')"
    and p3: "is_digit (''12345678X'' ! 8) \<or> ''12345678X'' ! 8 = CHR ''X''"
    by (simp_all add: is_digit_def)
  have s: "''12345678X'' \<in> {''12345678X'', ''987654321''}"
    by simp
  have "PatchUpArticle example_article_ppn {''12345678X'', ''987654321''} 0
          = Inr (example_article_ppn
                   \<lparr>record_leader := (record_leader example_article_ppn)[7 := CHR ''b'']\<rparr>,
                 0 + 1)"
    by (rule PatchUpArticle_flips_level [OF l1 l2 f1 f2 f3 w x1 x2 p1 p2 p3 s])
  then have res: "PatchUpArticle example_article_ppn {''12345678X'', ''987654321''} 0
     = Inr (example_article_ppn\<lparr>record_leader := ''00000nab a2200000 a 4500''\<rparr>, 1)"
    by (simp add: example_article_ppn_def)
  show ?thesis
    by (intro conjI l1 l2 f2 f0 w s res)
qed

end
